theory Spec2Isabelle
  imports Main "HOL-Library.Word" "HOL-Library.AList"
begin

section \<open>Data model\<close>

text \<open>
  The cache of \<^verbatim>\<open>cacheTable.go\<close> and of the cache-item file is embedded as a sequential
  program over one explicit state.

  \<^item> A \<^verbatim>\<open>*CacheItem\<close> is an address into a store of item objects (\<open>heap\<close>); a new object is
    put at the end of the store, so its address is the store's old length.
  \<^item> \<^verbatim>\<open>time.Duration\<close> and the hit counter are \<^verbatim>\<open>int64\<close>: 64-bit words read with \<open>sint\<close>.
  \<^item> A \<^verbatim>\<open>time.Time\<close> is the reading of the monotonic clock, in nanoseconds. Every call of
    \<^verbatim>\<open>time.Now()\<close> advances the clock by the next entry of \<open>ticks\<close> (the time that went by
    since the previous reading), so that the clock never runs backwards; when the entries
    are used up the clock stands still.
  \<^item> The user's callbacks are opaque: a callback is known by an identifier, and calling it
    appends an event to \<open>trace\<close>. The lines handed to the logger go to the same trace.
    A callback that calls back into the table is outside this model.
  \<^item> The table's \<^verbatim>\<open>sync.RWMutex\<close> is part of the state. A call that would wait for ever on
    it, and the runtime's fatal errors on a wrong unlock, are values of type \<open>fault\<close>.
    The mutex of an item is taken and released in matching pairs within single functions
    and is left out.
  \<^item> The \<^verbatim>\<open>map[interface{}]*CacheItem\<close> is an association list with distinct keys; a
    \<^verbatim>\<open>range\<close> over the map visits the entries in the order of the list.
\<close>

type_synonym addr = nat
type_synonym callback = nat
type_synonym Time = int
type_synonym Duration = "64 word"

datatype 'a iface = Val 'a | Slice "'a iface list"

record ('k, 'd) CacheItem =
  key :: 'k
  data :: 'd
  lifeSpan :: Duration
  createdOn :: Time
  accessedOn :: Time
  accessCount :: "64 word"
  aboutToExpire :: "callback list"

datatype RWMutex = RWMutex (writer: bool) (readers: nat)

datatype Timer = Timer (pending: bool) (delay: Duration)

text \<open>Modelled from the spec: the two error values, which the repository declares in a file
  that is not among the sources. \<^verbatim>\<open>KeyNotFound\<close> is what a lookup or a delete answers for an
  absent key, \<^verbatim>\<open>KeyNotFoundOrLoadable\<close> what a lookup answers when the loader has no item
  for the key.\<close>

datatype error = ErrKeyNotFound | ErrKeyNotFoundOrLoadable

text \<open>The ways in which a call does not return: the two fatal errors of the runtime's
  \<^verbatim>\<open>RWMutex\<close>, and waiting for ever for a lock (there is one thread of control).\<close>

datatype fault =
    Unlock_of_unlocked_RWMutex
  | RUnlock_of_unlocked_RWMutex
  | Blocked_forever

text \<open>What the table hands to its logger, one constructor for each call of \<^verbatim>\<open>table.log\<close>,
  with the values printed; and the events of the trace.\<close>

datatype 'k logline =
    Log_check_after Duration string
  | Log_check_install string
  | Log_delete 'k Time "64 word" string
  | Log_add 'k Duration
  | Log_flush string

datatype 'k event =
    Call_addedItem callback addr
  | Call_aboutToDeleteItem callback addr
  | Call_aboutToExpire callback 'k
  | Println "'k logline"

text \<open>
  The fields of \<^verbatim>\<open>CacheTable\<close>, followed by the environment the program runs in: the store
  of item objects, the clock, and the trace of callback calls and log lines.
\<close>

record ('k, 'd, 'a) state =
  mu :: RWMutex
  name :: string
  items :: "('k \<times> addr) list"
  cleanupTimer :: "Timer option"
  cleanupInterval :: Duration
  logger :: "nat option"
  loadData :: "('k \<Rightarrow> 'a iface list \<Rightarrow> ('k, 'd) CacheItem option) option"
  addedItem :: "callback list"
  aboutToDeleteItem :: "callback list"
  heap :: "('k, 'd) CacheItem list"
  clock :: Time
  ticks :: "nat list"
  trace :: "'k event list"

section \<open>The runtime: clock, mutex, timer\<close>

definition time_Now :: "('k, 'd, 'a) state \<Rightarrow> Time \<times> ('k, 'd, 'a) state" where
  "time_Now s =
     (case ticks s of
        [] \<Rightarrow> (clock s, s)
      | e # es \<Rightarrow> (clock s + int e, s\<lparr>clock := clock s + int e, ticks := es\<rparr>))"

text \<open>\<^verbatim>\<open>t.Sub(u)\<close>: the difference, held at the largest or smallest \<^verbatim>\<open>Duration\<close> when it
  does not fit.\<close>

definition Sub :: "Time \<Rightarrow> Time \<Rightarrow> Duration" where
  "Sub t u =
     (if 2 ^ 63 - 1 < t - u then word_of_int (2 ^ 63 - 1)
      else if t - u < - (2 ^ 63) then word_of_int (- (2 ^ 63))
      else word_of_int (t - u))"

definition Lock :: "('k, 'd, 'a) state \<Rightarrow> fault + ('k, 'd, 'a) state" where
  "Lock s =
     (if writer (mu s) \<or> 0 < readers (mu s) then Inl Blocked_forever
      else Inr (s\<lparr>mu := RWMutex True 0\<rparr>))"

definition Unlock :: "('k, 'd, 'a) state \<Rightarrow> fault + ('k, 'd, 'a) state" where
  "Unlock s =
     (if writer (mu s) then Inr (s\<lparr>mu := RWMutex False (readers (mu s))\<rparr>)
      else Inl Unlock_of_unlocked_RWMutex)"

definition RLock :: "('k, 'd, 'a) state \<Rightarrow> fault + ('k, 'd, 'a) state" where
  "RLock s =
     (if writer (mu s) then Inl Blocked_forever
      else Inr (s\<lparr>mu := RWMutex False (Suc (readers (mu s)))\<rparr>))"

definition RUnlock :: "('k, 'd, 'a) state \<Rightarrow> fault + ('k, 'd, 'a) state" where
  "RUnlock s =
     (if readers (mu s) = 0 then Inl RUnlock_of_unlocked_RWMutex
      else Inr (s\<lparr>mu := RWMutex (writer (mu s)) (readers (mu s) - 1)\<rparr>))"

definition Stop :: "Timer \<Rightarrow> Timer" where
  "Stop t = Timer False (delay t)"

definition AfterFunc :: "Duration \<Rightarrow> Timer" where
  "AfterFunc d = Timer True d"

section \<open>Cache items\<close>

definition NewCacheItem ::
  "'k \<Rightarrow> Duration \<Rightarrow> 'd \<Rightarrow> ('k, 'd, 'a) state \<Rightarrow> addr \<times> ('k, 'd, 'a) state" where
  "NewCacheItem k l d s =
     (let (t, s1) = time_Now s
      in (length (heap s1),
          s1\<lparr>heap := heap s1 @
             [\<lparr>key = k, data = d, lifeSpan = l, createdOn = t, accessedOn = t,
               accessCount = 0, aboutToExpire = []\<rparr>]\<rparr>))"

definition KeepAlive :: "addr \<Rightarrow> ('k, 'd, 'a) state \<Rightarrow> ('k, 'd, 'a) state" where
  "KeepAlive item s =
     (let (t, s1) = time_Now s;
          it = heap s1 ! item
      in s1\<lparr>heap := (heap s1)[item := it\<lparr>accessedOn := t, accessCount := accessCount it + 1\<rparr>]\<rparr>)"

section \<open>The cache table\<close>

definition log :: "'k logline \<Rightarrow> ('k, 'd, 'a) state \<Rightarrow> ('k, 'd, 'a) state" where
  "log l s = (if logger s = None then s else s\<lparr>trace := trace s @ [Println l]\<rparr>)"

definition call :: "'k event list \<Rightarrow> ('k, 'd, 'a) state \<Rightarrow> ('k, 'd, 'a) state" where
  "call evs s = s\<lparr>trace := trace s @ evs\<rparr>"

definition Count :: "('k, 'd, 'a) state \<Rightarrow> fault + (nat \<times> ('k, 'd, 'a) state)" where
  "Count s =
     (case RLock s of
        Inl f \<Rightarrow> Inl f
      | Inr s1 \<Rightarrow>
          (let n = length (items s1)
           in case Unlock s1 of Inl f \<Rightarrow> Inl f | Inr s2 \<Rightarrow> Inr (n, s2)))"

definition deleteInternal ::
  "'k \<Rightarrow> ('k, 'd, 'a) state \<Rightarrow> fault + ((addr option \<times> error option) \<times> ('k, 'd, 'a) state)" where
  "deleteInternal k s =
     (case map_of (items s) k of
        None \<Rightarrow> Inr ((None, Some ErrKeyNotFound), s)
      | Some r \<Rightarrow>
          (let callbacks = aboutToDeleteItem s
           in case Unlock s of
                Inl f \<Rightarrow> Inl f
              | Inr s1 \<Rightarrow>
                  (let s2 = call (map (\<lambda>c. Call_aboutToDeleteItem c r) callbacks) s1;
                       s3 = call (map (\<lambda>c. Call_aboutToExpire c k) (aboutToExpire (heap s2 ! r))) s2
                   in case Lock s3 of
                        Inl f \<Rightarrow> Inl f
                      | Inr s4 \<Rightarrow>
                          (let s5 = log (Log_delete k (createdOn (heap s4 ! r))
                                           (accessCount (heap s4 ! r)) (name s4)) s4
                           in Inr ((Some r, None),
                                   s5\<lparr>items := AList.delete k (items s5)\<rparr>)))))"

text \<open>The \<^verbatim>\<open>range\<close> loop of \<^verbatim>\<open>expirationCheck\<close> over the entries still to visit, with the
  running \<^verbatim>\<open>smallestDuration\<close>. The loop removes no entry but the one it is visiting, so
  the entries still to visit are those of the map when the loop began.\<close>

fun sweep ::
  "Time \<Rightarrow> ('k \<times> addr) list \<Rightarrow> Duration \<Rightarrow> ('k, 'd, 'a) state
     \<Rightarrow> fault + (Duration \<times> ('k, 'd, 'a) state)" where
  "sweep now [] smallestDuration s = Inr (smallestDuration, s)"
| "sweep now ((k, item) # rest) smallestDuration s =
     (let l = lifeSpan (heap s ! item);
          a = accessedOn (heap s ! item)
      in if l = 0 then sweep now rest smallestDuration s
         else if sint l \<le> sint (Sub now a) then
           (case deleteInternal k s of
              Inl f \<Rightarrow> Inl f
            | Inr (_, s1) \<Rightarrow> sweep now rest smallestDuration s1)
         else if smallestDuration = 0 \<or> sint (l - Sub now a) < sint smallestDuration
           then sweep now rest (l - Sub now a) s
           else sweep now rest smallestDuration s)"

definition expirationCheck :: "('k, 'd, 'a) state \<Rightarrow> fault + ('k, 'd, 'a) state" where
  "expirationCheck s =
     (case Lock s of
        Inl f \<Rightarrow> Inl f
      | Inr s1 \<Rightarrow>
          (let s2 = (case cleanupTimer s1 of
                       None \<Rightarrow> s1
                     | Some t \<Rightarrow> s1\<lparr>cleanupTimer := Some (Stop t)\<rparr>);
               s3 = (if 0 < sint (cleanupInterval s2)
                     then log (Log_check_after (cleanupInterval s2) (name s2)) s2
                     else log (Log_check_install (name s2)) s2);
               (now, s4) = time_Now s3
           in case sweep now (items s4) 0 s4 of
                Inl f \<Rightarrow> Inl f
              | Inr (smallestDuration, s5) \<Rightarrow>
                  (let s6 = s5\<lparr>cleanupInterval := smallestDuration\<rparr>;
                       s7 = (if 0 < sint smallestDuration
                             then s6\<lparr>cleanupTimer := Some (AfterFunc smallestDuration)\<rparr>
                             else s6)
                   in Unlock s7)))"

definition addInternal :: "addr \<Rightarrow> ('k, 'd, 'a) state \<Rightarrow> fault + ('k, 'd, 'a) state" where
  "addInternal item s =
     (let it = heap s ! item;
          s1 = log (Log_add (key it) (lifeSpan it)) s;
          s2 = s1\<lparr>items := AList.update (key it) item (items s1)\<rparr>;
          expDur = cleanupInterval s2;
          cbs = addedItem s2
      in case Unlock s2 of
           Inl f \<Rightarrow> Inl f
         | Inr s3 \<Rightarrow>
             (let s4 = call (map (\<lambda>c. Call_addedItem c item) cbs) s3
              in if 0 < sint (lifeSpan it) \<and> (expDur = 0 \<or> sint (lifeSpan it) < sint expDur)
                 then expirationCheck s4
                 else Inr s4))"

definition Add ::
  "'k \<Rightarrow> Duration \<Rightarrow> 'd \<Rightarrow> ('k, 'd, 'a) state \<Rightarrow> fault + (addr \<times> ('k, 'd, 'a) state)" where
  "Add k l d s =
     (let (item, s1) = NewCacheItem k l d s
      in case Lock s1 of
           Inl f \<Rightarrow> Inl f
         | Inr s2 \<Rightarrow>
             (case addInternal item s2 of
                Inl f \<Rightarrow> Inl f
              | Inr s3 \<Rightarrow> Inr (item, s3)))"

definition Delete ::
  "'k \<Rightarrow> ('k, 'd, 'a) state \<Rightarrow> fault + ((addr option \<times> error option) \<times> ('k, 'd, 'a) state)" where
  "Delete k s =
     (case Lock s of
        Inl f \<Rightarrow> Inl f
      | Inr s1 \<Rightarrow>
          (case deleteInternal k s1 of
             Inl f \<Rightarrow> Inl f
           | Inr (r, s2) \<Rightarrow>
               (case Unlock s2 of Inl f \<Rightarrow> Inl f | Inr s3 \<Rightarrow> Inr (r, s3))))"

definition Exists :: "'k \<Rightarrow> ('k, 'd, 'a) state \<Rightarrow> fault + (bool \<times> ('k, 'd, 'a) state)" where
  "Exists k s =
     (case RLock s of
        Inl f \<Rightarrow> Inl f
      | Inr s1 \<Rightarrow>
          (let ok = (map_of (items s1) k \<noteq> None)
           in case RUnlock s1 of Inl f \<Rightarrow> Inl f | Inr s2 \<Rightarrow> Inr (ok, s2)))"


text \<open>The loader is the user's function: it is given the key and its variadic arguments and
  answers with the item object it built, or with nothing (\<^verbatim>\<open>nil\<close>). \<^verbatim>\<open>Value\<close> calls
  \<^verbatim>\<open>loadData(key, args)\<close>, which hands the slice \<^verbatim>\<open>args\<close> over as one argument. The
  loader's object is put in the store; \<^verbatim>\<open>Value\<close> reads its \<^verbatim>\<open>lifeSpan\<close> and \<^verbatim>\<open>data\<close> for
  \<^verbatim>\<open>Add\<close> and returns its address.\<close>

definition Value ::
  "'k \<Rightarrow> 'a iface list \<Rightarrow> ('k, 'd, 'a) state
     \<Rightarrow> fault + ((addr option \<times> error option) \<times> ('k, 'd, 'a) state)" where
  "Value k args s =
     (case RLock s of
        Inl f \<Rightarrow> Inl f
      | Inr s1 \<Rightarrow>
          (let r = map_of (items s1) k;
               ld = loadData s1
           in case RUnlock s1 of
                Inl f \<Rightarrow> Inl f
              | Inr s2 \<Rightarrow>
                  (case r of
                     Some p \<Rightarrow> Inr ((Some p, None), KeepAlive p s2)
                   | None \<Rightarrow>
                       (case ld of
                          Some load \<Rightarrow>
                            (case load k [Slice args] of
                               Some it \<Rightarrow>
                                 (let item = length (heap s2);
                                      s3 = s2\<lparr>heap := heap s2 @ [it]\<rparr>
                                  in case Add k (lifeSpan it) (data it) s3 of
                                       Inl f \<Rightarrow> Inl f
                                     | Inr (_, s4) \<Rightarrow> Inr ((Some item, None), s4))
                             | None \<Rightarrow> Inr ((None, Some ErrKeyNotFoundOrLoadable), s2))
                        | None \<Rightarrow> Inr ((None, Some ErrKeyNotFound), s2)))))"

definition Flush :: "('k, 'd, 'a) state \<Rightarrow> fault + ('k, 'd, 'a) state" where
  "Flush s =
     (case Lock s of
        Inl f \<Rightarrow> Inl f
      | Inr s1 \<Rightarrow>
          (let s2 = log (Log_flush (name s1)) s1;
               s3 = s2\<lparr>items := []\<rparr>;
               s4 = s3\<lparr>cleanupInterval := 0\<rparr>;
               s5 = (case cleanupTimer s4 of
                       None \<Rightarrow> s4
                     | Some t \<Rightarrow> s4\<lparr>cleanupTimer := Some (Stop t)\<rparr>)
           in Unlock s5))"

section \<open>Notions used to state the properties\<close>

text \<open>The events of one pass through \<^verbatim>\<open>deleteInternal\<close> for the key \<open>k\<close> held with item \<open>r\<close>:
  the table's \<^verbatim>\<open>aboutToDeleteItem\<close> callbacks on the item, the item's \<^verbatim>\<open>aboutToExpire\<close>
  callbacks on the key, and the line for the logger if there is one.\<close>

definition delete_events :: "('k, 'd, 'a) state \<Rightarrow> 'k \<Rightarrow> addr \<Rightarrow> 'k event list" where
  "delete_events s k r =
     map (\<lambda>c. Call_aboutToDeleteItem c r) (aboutToDeleteItem s) @
     map (\<lambda>c. Call_aboutToExpire c k) (aboutToExpire (heap s ! r)) @
     (if logger s = None then []
      else [Println (Log_delete k (createdOn (heap s ! r)) (accessCount (heap s ! r)) (name s))])"

text \<open>For the item at \<open>p\<close> in the store \<open>h\<close> and a sweep that read the clock at \<open>now\<close>, the
  idle time is \<open>Sub now accessedOn\<close>. The item is expired when its lifespan is not 0 and
  the idle time has reached it; it is a survivor when its lifespan is not 0 and the idle
  time has not; its remaining time is the lifespan less the idle time. Durations are
  compared as signed 64-bit values.\<close>

definition expired :: "('k, 'd) CacheItem list \<Rightarrow> Time \<Rightarrow> addr \<Rightarrow> bool" where
  "expired h now p \<longleftrightarrow>
     lifeSpan (h ! p) \<noteq> 0 \<and> sint (lifeSpan (h ! p)) \<le> sint (Sub now (accessedOn (h ! p)))"

definition remaining :: "('k, 'd) CacheItem list \<Rightarrow> Time \<Rightarrow> addr \<Rightarrow> Duration" where
  "remaining h now p = lifeSpan (h ! p) - Sub now (accessedOn (h ! p))"

definition survivor :: "('k, 'd) CacheItem list \<Rightarrow> Time \<Rightarrow> addr \<Rightarrow> bool" where
  "survivor h now p \<longleftrightarrow>
     lifeSpan (h ! p) \<noteq> 0 \<and> \<not> sint (lifeSpan (h ! p)) \<le> sint (Sub now (accessedOn (h ! p)))"

text \<open>The running minimum that the sweep keeps, over a list of remaining times, where 0
  stands for none so far.\<close>

fun smallest :: "Duration list \<Rightarrow> Duration \<Rightarrow> Duration" where
  "smallest [] sm = sm"
| "smallest (r # rs) sm = smallest rs (if sm = 0 \<or> sint r < sint sm then r else sm)"

text \<open>The line a sweep hands to the logger when it begins.\<close>

definition check_log :: "('k, 'd, 'a) state \<Rightarrow> 'k event list" where
  "check_log s =
     (if logger s = None then []
      else if 0 < sint (cleanupInterval s)
        then [Println (Log_check_after (cleanupInterval s) (name s))]
        else [Println (Log_check_install (name s))])"

text \<open>The events that are calls of a callback.\<close>

fun is_call :: "'k event \<Rightarrow> bool" where
  "is_call (Println l) = False"
| "is_call e = True"





text \<open>An item is in order when its address is in the store, it was not read before it was
  made, and not after the present reading of the clock.\<close>

definition item_ok :: "('k, 'd, 'a) state \<Rightarrow> addr \<Rightarrow> bool" where
  "item_ok s item \<longleftrightarrow>
     item < length (heap s) \<and>
     createdOn (heap s ! item) \<le> accessedOn (heap s ! item) \<and>
     accessedOn (heap s ! item) \<le> clock s"

section \<open>A table to run the operations on\<close>

text \<open>A table that holds three items: \<open>a\<close> never expires, \<open>b\<close> has ten nanoseconds to live and
  two callbacks of its own, \<open>c\<close> has fifty and was read once, five nanoseconds after it was
  made. The clock stands at 10 and its next readings come 2, 1 and 1 nanoseconds apart.\<close>

definition example_table :: "(string, nat, nat) state" where
  "example_table =
     \<lparr>mu = RWMutex False 0, name = ''t'',
      items = [(''a'', 0), (''b'', 1), (''c'', 2)],
      cleanupTimer = Some (Timer True 10), cleanupInterval = 10,
      logger = None, loadData = None, addedItem = [5], aboutToDeleteItem = [7],
      heap = [\<lparr>key = ''a'', data = 100, lifeSpan = 0, createdOn = 0, accessedOn = 0,
                accessCount = 0, aboutToExpire = []\<rparr>,
              \<lparr>key = ''b'', data = 200, lifeSpan = 10, createdOn = 0, accessedOn = 0,
                accessCount = 0, aboutToExpire = [8, 9]\<rparr>,
              \<lparr>key = ''c'', data = 300, lifeSpan = 50, createdOn = 0, accessedOn = 5,
                accessCount = 1, aboutToExpire = []\<rparr>],
      clock = 10, ticks = [2, 1, 1], trace = []\<rparr>"

text \<open>A new table with nothing in it; the clock reads 0, then 1, then 1 again.\<close>

definition example_empty :: "(string, nat, nat) state" where
  "example_empty =
     \<lparr>mu = RWMutex False 0, name = ''t'', items = [],
      cleanupTimer = None, cleanupInterval = 0,
      logger = None, loadData = None, addedItem = [], aboutToDeleteItem = [],
      heap = [], clock = 0, ticks = [0, 1, 0], trace = []\<rparr>"


section \<open>The mutex and the internal delete path\<close>

lemma Lock_free: "mu s = RWMutex False 0 \<Longrightarrow> Lock s = Inr (s\<lparr>mu := RWMutex True 0\<rparr>)"
  by (simp add: Lock_def)

lemma Unlock_held: "mu s = RWMutex True 0 \<Longrightarrow> Unlock s = Inr (s\<lparr>mu := RWMutex False 0\<rparr>)"
  by (simp add: Unlock_def)

lemma delete_events_same:
  assumes "heap s' = heap s" "aboutToDeleteItem s' = aboutToDeleteItem s"
    "logger s' = logger s" "name s' = name s"
  shows "delete_events s' = delete_events s"
  using assms by (intro ext) (simp add: delete_events_def)

lemma delete_events_upd [simp]:
  "delete_events (s\<lparr>items := i\<rparr>) = delete_events s"
  "delete_events (s\<lparr>trace := t\<rparr>) = delete_events s"
  "delete_events (s\<lparr>mu := m\<rparr>) = delete_events s"
  "delete_events (s\<lparr>cleanupTimer := c\<rparr>) = delete_events s"
  "delete_events (s\<lparr>cleanupInterval := d\<rparr>) = delete_events s"
  "delete_events (s\<lparr>clock := t'\<rparr>) = delete_events s"
  "delete_events (s\<lparr>ticks := ts\<rparr>) = delete_events s"
  by (rule delete_events_same; simp)+

lemma delete_as_filter: "AList.delete k xs = filter (\<lambda>x. fst x \<noteq> k) xs"
  by (induction xs) (auto simp: AList.delete_eq)

lemma deleteInternal_held:
  assumes "mu s = RWMutex True 0" "map_of (items s) k = Some r"
  shows "deleteInternal k s =
           Inr ((Some r, None),
                s\<lparr>items := AList.delete k (items s), trace := trace s @ delete_events s k r\<rparr>)"
  using assms
  by (simp add: deleteInternal_def Unlock_def Lock_def call_def log_def delete_events_def Let_def)

lemma deleteInternal_absent:
  "map_of (items s) k = None \<Longrightarrow> deleteInternal k s = Inr ((None, Some ErrKeyNotFound), s)"
  by (simp add: deleteInternal_def)

lemma sweep_held:
  assumes "mu s = RWMutex True 0" "distinct (map fst kps)"
    and "\<And>k p. (k, p) \<in> set kps \<Longrightarrow> map_of (items s) k = Some p"
  shows "sweep now kps sm s =
           Inr (smallest (map (\<lambda>(k, p). remaining (heap s) now p)
                            (filter (\<lambda>(k, p). survivor (heap s) now p) kps)) sm,
                s\<lparr>items := filter (\<lambda>(k, p). k \<notin> fst ` set (filter (\<lambda>(k, p). expired (heap s) now p) kps))
                                  (items s),
                  trace := trace s @
                    concat (map (\<lambda>(k, p). delete_events s k p)
                                (filter (\<lambda>(k, p). expired (heap s) now p) kps))\<rparr>)"
  using assms
proof (induction kps arbitrary: s sm)
  case Nil
  then show ?case by simp
next
  case (Cons kp kps)
  obtain k p where kp: "kp = (k, p)" by (cases kp)
  have look: "map_of (items s) k = Some p" using Cons.prems(3) kp by simp
  have rest: "\<And>k' p'. (k', p') \<in> set kps \<Longrightarrow> map_of (items s) k' = Some p'"
    using Cons.prems(3) by simp
  have dist: "distinct (map fst kps)" and notin: "k \<notin> fst ` set kps"
    using Cons.prems(2) kp by auto
  show ?case
  proof (cases "expired (heap s) now p")
    case True
    let ?s1 = "s\<lparr>items := AList.delete k (items s), trace := trace s @ delete_events s k p\<rparr>"
    have d: "deleteInternal k s = Inr ((Some p, None), ?s1)"
      using deleteInternal_held [OF Cons.prems(1) look] .
    have m1: "mu ?s1 = RWMutex True 0" using Cons.prems(1) by simp
    have r1: "\<And>k' p'. (k', p') \<in> set kps \<Longrightarrow> map_of (items ?s1) k' = Some p'"
    proof -
      fix k' p' assume in_kps: "(k', p') \<in> set kps"
      then have "k' \<noteq> k" using notin by force
      then show "map_of (items ?s1) k' = Some p'"
        using rest [OF in_kps] by (simp add: delete_conv')
    qed
    have step: "sweep now (kp # kps) sm s = sweep now kps sm ?s1"
      using True d by (simp add: kp expired_def Let_def)
    have nsurv: "\<not> survivor (heap s) now p" using True by (simp add: expired_def survivor_def)
    note step
    also note Cons.IH [OF m1 dist r1]
    finally show ?thesis
      using True nsurv
      by (simp add: kp delete_as_filter case_prod_unfold)
  next
    case False
    have step: "sweep now (kp # kps) sm s =
                  sweep now kps (if survivor (heap s) now p
                                 then (if sm = 0 \<or> sint (remaining (heap s) now p) < sint sm
                                       then remaining (heap s) now p else sm)
                                 else sm) s"
      using False by (auto simp add: kp expired_def survivor_def remaining_def Let_def)
    note step
    also note Cons.IH [OF Cons.prems(1) dist rest]
    finally show ?thesis
      using False
      by (simp add: kp)
  qed
qed

lemma filter_expired_keys:
  assumes "distinct (map fst xs)"
  shows "filter (\<lambda>(k, p). k \<notin> fst ` set (filter (\<lambda>(k, p). P p) xs)) xs =
         filter (\<lambda>(k, p). \<not> P p) xs"
proof (rule filter_cong [OF refl])
  fix x assume x: "x \<in> set xs"
  obtain k p where kp: "x = (k, p)" by (cases x)
  have "k \<in> fst ` set (filter (\<lambda>(k, p). P p) xs) \<longleftrightarrow> P p"
  proof
    assume "k \<in> fst ` set (filter (\<lambda>(k, p). P p) xs)"
    then obtain p' where p': "(k, p') \<in> set xs" "P p'" by auto
    from assms p'(1) x kp have "p' = p" by (meson eq_key_imp_eq_value)
    with p'(2) show "P p" by simp
  next
    assume "P p"
    with x kp show "k \<in> fst ` set (filter (\<lambda>(k, p). P p) xs)" by force
  qed
  then show "(case x of (k, p) \<Rightarrow> k \<notin> fst ` set (filter (\<lambda>(k, p). P p) xs)) =
             (case x of (k, p) \<Rightarrow> \<not> P p)"
    by (simp add: kp)
qed

lemma expirationCheck_result:
  assumes free: "mu s = RWMutex False 0" and dist: "distinct (map fst (items s))"
  shows "expirationCheck s =
     Inr (s\<lparr>cleanupTimer :=
              (let sm = smallest (map (\<lambda>(k, p). remaining (heap s) (fst (time_Now s)) p)
                         (filter (\<lambda>(k, p). survivor (heap s) (fst (time_Now s)) p) (items s))) 0
               in if 0 < sint sm then Some (AfterFunc sm) else map_option Stop (cleanupTimer s)),
            cleanupInterval :=
              smallest (map (\<lambda>(k, p). remaining (heap s) (fst (time_Now s)) p)
                         (filter (\<lambda>(k, p). survivor (heap s) (fst (time_Now s)) p) (items s))) 0,
            clock := fst (time_Now s),
            ticks := tl (ticks s),
            items := filter (\<lambda>(k, p). \<not> expired (heap s) (fst (time_Now s)) p) (items s),
            trace := trace s @ check_log s @
               concat (map (\<lambda>(k, p). delete_events s k p)
                         (filter (\<lambda>(k, p). expired (heap s) (fst (time_Now s)) p) (items s)))\<rparr>)"
proof -
  define s3 where "s3 = (s\<lparr>mu := RWMutex True 0, cleanupTimer := map_option Stop (cleanupTimer s),
                          trace := trace s @ check_log s\<rparr>)"
  define now where "now = fst (time_Now s)"
  define s4 where "s4 = s3\<lparr>clock := now, ticks := tl (ticks s)\<rparr>"
  have tn: "time_Now s3 = (now, s4)"
    by (cases "ticks s") (simp_all add: time_Now_def s3_def s4_def now_def)
  have m4: "mu s4 = RWMutex True 0" by (simp add: s4_def s3_def)
  have d4: "distinct (map fst (items s4))" using dist by (simp add: s4_def s3_def)
  have l4: "\<And>k p. (k, p) \<in> set (items s4) \<Longrightarrow> map_of (items s4) k = Some p"
    using d4 by simp
  have unf: "expirationCheck s =
     (case sweep now (items s4) 0 s4 of
        Inl f \<Rightarrow> Inl f
      | Inr (smallestDuration, s5) \<Rightarrow>
          (let s6 = s5\<lparr>cleanupInterval := smallestDuration\<rparr>;
               s7 = (if 0 < sint smallestDuration
                     then s6\<lparr>cleanupTimer := Some (AfterFunc smallestDuration)\<rparr>
                     else s6)
           in Unlock s7))"
  proof -
    have a: "(case cleanupTimer (s\<lparr>mu := RWMutex True 0\<rparr>) of None \<Rightarrow> s\<lparr>mu := RWMutex True 0\<rparr>
               | Some t \<Rightarrow> s\<lparr>mu := RWMutex True 0, cleanupTimer := Some (Stop t)\<rparr>)
             = s\<lparr>mu := RWMutex True 0, cleanupTimer := map_option Stop (cleanupTimer s)\<rparr>"
      by (cases "cleanupTimer s") simp_all
    have b: "(let s2 = s\<lparr>mu := RWMutex True 0, cleanupTimer := map_option Stop (cleanupTimer s)\<rparr>
              in if 0 < sint (cleanupInterval s2)
                 then log (Log_check_after (cleanupInterval s2) (name s2)) s2
                 else log (Log_check_install (name s2)) s2) = s3"
      by (auto simp add: log_def s3_def check_log_def Let_def)
    show ?thesis
      unfolding expirationCheck_def Lock_free [OF free] sum.case a
      using b tn by (simp add: Let_def)
  qed
  have sw: "sweep now (items s4) 0 s4 =
           Inr (smallest (map (\<lambda>(k, p). remaining (heap s4) now p)
                            (filter (\<lambda>(k, p). survivor (heap s4) now p) (items s4))) 0,
                s4\<lparr>items := filter (\<lambda>(k, p). k \<notin> fst ` set (filter (\<lambda>(k, p). expired (heap s4) now p) (items s4)))
                                  (items s4),
                  trace := trace s4 @
                    concat (map (\<lambda>(k, p). delete_events s4 k p)
                                (filter (\<lambda>(k, p). expired (heap s4) now p) (items s4)))\<rparr>)"
    by (rule sweep_held [OF m4 d4 l4])
  have i4: "items s4 = items s" and h4: "heap s4 = heap s"
    and e4: "delete_events s4 = delete_events s"
    by (simp_all add: s4_def s3_def)
  have sw': "sweep now (items s4) 0 s4 =
           Inr (smallest (map (\<lambda>(k, p). remaining (heap s) now p)
                            (filter (\<lambda>(k, p). survivor (heap s) now p) (items s))) 0,
                s4\<lparr>items := filter (\<lambda>(k, p). \<not> expired (heap s) now p) (items s),
                  trace := trace s4 @
                    concat (map (\<lambda>(k, p). delete_events s k p)
                                (filter (\<lambda>(k, p). expired (heap s) now p) (items s)))\<rparr>)"
    using sw unfolding i4 h4 e4 filter_expired_keys [OF dist] .
  show ?thesis
    unfolding unf sw'
    by (simp add: Let_def)
       (simp add: Unlock_def s4_def s3_def now_def free [symmetric])
qed

lemmas example_simps =
  example_table_def expired_def remaining_def check_log_def delete_events_def Sub_def time_Now_def

section \<open>The expiration sweep\<close>

lemma smallest_nonzero:
  assumes "0 \<notin> set rs" "sm \<noteq> 0"
  shows "smallest rs sm \<in> insert sm (set rs) \<and>
         (\<forall>x \<in> insert sm (set rs). sint (smallest rs sm) \<le> sint x)"
  using assms
proof (induction rs arbitrary: sm)
  case Nil
  then show ?case by simp
next
  case (Cons r rs)
  let ?sm' = "if sm = 0 \<or> sint r < sint sm then r else sm"
  have nz: "?sm' \<noteq> 0" and rs: "0 \<notin> set rs" using Cons.prems by auto
  have le: "sint ?sm' \<le> sint r" "sint ?sm' \<le> sint sm" using Cons.prems by auto
  have mem: "?sm' \<in> {r, sm}" by simp
  from Cons.IH [OF rs nz]
  have ih: "smallest rs ?sm' \<in> insert ?sm' (set rs)"
    "\<forall>x \<in> insert ?sm' (set rs). sint (smallest rs ?sm') \<le> sint x" by blast+
  have "sint (smallest rs ?sm') \<le> sint ?sm'" using ih(2) by blast
  then have "sint (smallest rs ?sm') \<le> sint r" "sint (smallest rs ?sm') \<le> sint sm"
    using le by linarith+
  moreover have "smallest rs ?sm' \<in> insert sm (set (r # rs))" using ih(1) mem by auto
  ultimately show ?case using ih(2) by simp
qed

lemma smallest_min:
  assumes "0 \<notin> set rs" "rs \<noteq> []"
  shows "smallest rs 0 \<in> set rs \<and> (\<forall>x \<in> set rs. sint (smallest rs 0) \<le> sint x)"
proof -
  obtain r rs' where rs: "rs = r # rs'" using assms(2) by (cases rs) auto
  have "r \<noteq> 0" "0 \<notin> set rs'" using assms(1) rs by auto
  from smallest_nonzero [OF this(2) this(1)] show ?thesis by (simp add: rs)
qed

lemma survivor_remaining: "survivor h now p \<Longrightarrow> remaining h now p \<noteq> 0"
  by (auto simp: survivor_def remaining_def)

lemma survivors_after:
  "filter (\<lambda>(k, p). lifeSpan (h ! p) \<noteq> 0) (filter (\<lambda>(k, p). \<not> expired h now p) xs) =
   filter (\<lambda>(k, p). survivor h now p) xs"
  by (induction xs) (auto simp: expired_def survivor_def)

lemma immortal_after:
  "filter (\<lambda>(k, p). lifeSpan (h ! p) = 0) (filter (\<lambda>(k, p). \<not> expired h now p) xs) =
   filter (\<lambda>(k, p). lifeSpan (h ! p) = 0) xs"
  by (induction xs) (auto simp: expired_def)

lemma expirationCheck_props:
  assumes "mu s = RWMutex False 0" and "distinct (map fst (items s))"
  obtains s' where
    "expirationCheck s = Inr s'"
    "mu s' = RWMutex False 0"
    "heap s' = heap s"
    "items s' = filter (\<lambda>(k, p). \<not> expired (heap s) (fst (time_Now s)) p) (items s)"
    "trace s' = trace s @ check_log s @
       concat (map (\<lambda>(k, p). delete_events s k p)
                 (filter (\<lambda>(k, p). expired (heap s) (fst (time_Now s)) p) (items s)))"
    "cleanupInterval s' =
       smallest (map (\<lambda>(k, p). remaining (heap s) (fst (time_Now s)) p)
                   (filter (\<lambda>(k, p). survivor (heap s) (fst (time_Now s)) p) (items s))) 0"
    "clock s' = fst (time_Now s)"
    "ticks s' = tl (ticks s)"
    "name s' = name s" "logger s' = logger s" "loadData s' = loadData s"
    "addedItem s' = addedItem s" "aboutToDeleteItem s' = aboutToDeleteItem s"
proof -
  show thesis
    by (rule that [OF expirationCheck_result [OF assms]]) (simp_all add: assms)
qed

text \<open>
  Claim C1. A sweep by \<^verbatim>\<open>expirationCheck\<close>, on a table that nobody holds locked, returns,
  and with \<open>now\<close> the clock it read and \<open>idle = now - accessedOn\<close>:
  the items with \<open>lifeSpan = 0\<close> are all still there; the entries left are those of before
  without the items that have \<open>lifeSpan \<noteq> 0\<close> and \<open>idle \<ge> lifeSpan\<close>; each of these went
  through \<^verbatim>\<open>deleteInternal\<close>, whose events (the table's \<^verbatim>\<open>aboutToDeleteItem\<close> callbacks, then
  the item's \<^verbatim>\<open>aboutToExpire\<close> callbacks, then the log line) are on the trace, item after item;
  and \<open>cleanupInterval\<close> is 0 when no item with \<open>lifeSpan \<noteq> 0\<close> is left, and otherwise the
  least \<open>lifeSpan - idle\<close> of those items.
\<close>

theorem expirationCheck_sweeps:
  assumes "mu s = RWMutex False 0" and "distinct (map fst (items s))"
  shows "\<exists>s'. expirationCheck s = Inr s' \<and>
     (let now = fst (time_Now s); h = heap s;
          dead = filter (\<lambda>(k, p). expired h now p) (items s);
          rems = map (\<lambda>(k, p). remaining h now p)
                     (filter (\<lambda>(k, p). lifeSpan (h ! p) \<noteq> 0) (items s'))
      in heap s' = h
       \<and> filter (\<lambda>(k, p). lifeSpan (h ! p) = 0) (items s') =
         filter (\<lambda>(k, p). lifeSpan (h ! p) = 0) (items s)
       \<and> items s' = filter (\<lambda>(k, p). \<not> expired h now p) (items s)
       \<and> trace s' = trace s @ check_log s @ concat (map (\<lambda>(k, p). delete_events s k p) dead)
       \<and> (if rems = [] then cleanupInterval s' = 0
          else cleanupInterval s' \<in> set rems \<and>
               (\<forall>r \<in> set rems. sint (cleanupInterval s') \<le> sint r)))"
proof -
  let ?now = "fst (time_Now s)"
  let ?rs = "map (\<lambda>(k, p). remaining (heap s) ?now p)
               (filter (\<lambda>(k, p). survivor (heap s) ?now p) (items s))"
  obtain s' where s':
    "expirationCheck s = Inr s'"
    "heap s' = heap s"
    "items s' = filter (\<lambda>(k, p). \<not> expired (heap s) ?now p) (items s)"
    "trace s' = trace s @ check_log s @
       concat (map (\<lambda>(k, p). delete_events s k p)
                 (filter (\<lambda>(k, p). expired (heap s) ?now p) (items s)))"
    "cleanupInterval s' = smallest ?rs 0"
    using expirationCheck_props [OF assms] by metis
  have fin: "filter (\<lambda>(k, p). lifeSpan (heap s ! p) \<noteq> 0) (items s') =
             filter (\<lambda>(k, p). survivor (heap s) ?now p) (items s)"
    unfolding s'(3) by (rule survivors_after)
  have imm: "filter (\<lambda>(k, p). lifeSpan (heap s ! p) = 0) (items s') =
             filter (\<lambda>(k, p). lifeSpan (heap s ! p) = 0) (items s)"
    unfolding s'(3) by (rule immortal_after)
  have nz: "0 \<notin> set ?rs" by (auto dest: survivor_remaining)
  define rs where "rs = ?rs"
  define ci where "ci = cleanupInterval s'"
  have c5: "ci = smallest rs 0" by (simp add: ci_def rs_def s'(5))
  have nz': "0 \<notin> set rs" unfolding rs_def by (rule nz)
  have "if rs = [] then ci = 0 else ci \<in> set rs \<and> (\<forall>r \<in> set rs. sint ci \<le> sint r)"
  proof (cases "rs = []")
    case True
    then show ?thesis by (simp add: c5)
  next
    case False
    from smallest_min [OF nz' False] False show ?thesis by (simp add: c5)
  qed
  then have mn: "if ?rs = [] then cleanupInterval s' = 0
            else cleanupInterval s' \<in> set ?rs \<and> (\<forall>r \<in> set ?rs. sint (cleanupInterval s') \<le> sint r)"
    unfolding rs_def ci_def .
  note mn' = mn [folded fin]
  show ?thesis
    unfolding Let_def
    by (intro exI [of _ s'] conjI) (fact s'(1) s'(2) imm s'(3) s'(4) mn')+
qed

theorem expirationCheck_sweeps_witness:
  "mu example_table = RWMutex False 0 \<and> distinct (map fst (items example_table)) \<and>
   (\<exists>s'. expirationCheck example_table = Inr s' \<and>
         items s' = [(''a'', 0), (''c'', 2)] \<and>
         cleanupInterval s' = 43 \<and>
         trace s' = [Call_aboutToDeleteItem 7 1, Call_aboutToExpire 8 ''b'',
                     Call_aboutToExpire 9 ''b''])"
  using expirationCheck_sweeps [of example_table]
  by (auto simp add: example_simps Let_def)

section \<open>Count\<close>

lemma Count_never_returns:
  "Count s = Inl Blocked_forever \<or> Count s = Inl Unlock_of_unlocked_RWMutex"
  by (simp add: Count_def RLock_def Unlock_def Let_def)

text \<open>
  Claim C9. \<^verbatim>\<open>Count\<close> takes the read lock and defers \<^verbatim>\<open>Unlock\<close>, the release of the write
  lock: on the table of three items, which nobody holds locked, the call ends in the
  runtime's fatal error and returns no count.
\<close>

theorem Count_fatal:
  "length (items example_table) = 3 \<and> Count example_table = Inl Unlock_of_unlocked_RWMutex"
  by (simp add: Count_def RLock_def Unlock_def Let_def example_table_def)

section \<open>Lookups that miss\<close>

lemma RLock_RUnlock:
  assumes "\<not> writer (mu s)"
  shows "RLock s = Inr (s\<lparr>mu := RWMutex False (Suc (readers (mu s)))\<rparr>)"
    and "RUnlock (s\<lparr>mu := RWMutex False (Suc (readers (mu s)))\<rparr>) = Inr s"
proof -
  show "RLock s = Inr (s\<lparr>mu := RWMutex False (Suc (readers (mu s)))\<rparr>)"
    using assms by (simp add: RLock_def)
  have "mu s = RWMutex False (readers (mu s))" using assms by (cases "mu s") simp
  then have "s\<lparr>mu := RWMutex False (readers (mu s))\<rparr> = s" by simp
  then show "RUnlock (s\<lparr>mu := RWMutex False (Suc (readers (mu s)))\<rparr>) = Inr s"
    by (simp add: RUnlock_def)
qed

text \<open>
  Claim C3. \<^verbatim>\<open>Value\<close> on a key the table does not hold, while no writer holds the mutex:
  with no loader the call returns \<^verbatim>\<open>(nil, ErrKeyNotFound)\<close>; with a loader that answers
  \<^verbatim>\<open>nil\<close> for the key it returns \<^verbatim>\<open>(nil, ErrKeyNotFoundOrLoadable)\<close>. Either way no item
  comes back and the table is as before.
\<close>

theorem Value_miss_errors:
  assumes "map_of (items s) k = None" and "\<not> writer (mu s)"
    and "case loadData s of None \<Rightarrow> True | Some load \<Rightarrow> load k [Slice args] = None"
  shows "Value k args s =
           Inr ((None, Some (case loadData s of None \<Rightarrow> ErrKeyNotFound
                                              | Some load \<Rightarrow> ErrKeyNotFoundOrLoadable)), s)"
  using assms(1,3)
  by (simp add: Value_def RLock_RUnlock [OF assms(2)] Let_def split: option.splits)

theorem Value_miss_errors_witness:
  "map_of (items example_table) ''z'' = None \<and> \<not> writer (mu example_table) \<and>
   Value ''z'' [Val 1] example_table = Inr ((None, Some ErrKeyNotFound), example_table) \<and>
   Value ''z'' [Val 1] (example_table\<lparr>loadData := Some (\<lambda>k a. None)\<rparr>) =
     Inr ((None, Some ErrKeyNotFoundOrLoadable), example_table\<lparr>loadData := Some (\<lambda>k a. None)\<rparr>)"
  using Value_miss_errors [of example_table "''z''" "[Val 1]"]
    Value_miss_errors [of "example_table\<lparr>loadData := Some (\<lambda>k a. None)\<rparr>" "''z''" "[Val 1]"]
  by (simp add: example_table_def)

section \<open>Flush\<close>

lemma Flush_result:
  assumes "mu s = RWMutex False 0"
  shows "Flush s =
           Inr (s\<lparr>items := [], cleanupInterval := 0,
                  cleanupTimer := map_option Stop (cleanupTimer s),
                  trace := trace s @ (if logger s = None then [] else [Println (Log_flush (name s))])\<rparr>)"
proof (cases "cleanupTimer s")
  case None
  then show ?thesis
    by (simp add: Flush_def Lock_free [OF assms] Unlock_def log_def Let_def assms [symmetric])
next
  case (Some t)
  then show ?thesis
    by (simp add: Flush_def Lock_free [OF assms] Unlock_def log_def Let_def assms [symmetric])
qed

text \<open>
  Claim C7. \<^verbatim>\<open>Flush\<close> on a table nobody holds locked returns; afterwards the map is empty,
  \<open>cleanupInterval\<close> is 0, the timer, if there is one, is stopped, and the trace has grown
  by the logger's line at most: no callback of any kind was called.
\<close>

theorem Flush_resets:
  assumes "mu s = RWMutex False 0"
  shows "\<exists>s'. Flush s = Inr s' \<and> items s' = [] \<and> cleanupInterval s' = 0 \<and>
           (case cleanupTimer s' of None \<Rightarrow> True | Some t \<Rightarrow> \<not> pending t) \<and>
           trace s' = trace s @ (if logger s = None then [] else [Println (Log_flush (name s))]) \<and>
           filter is_call (trace s') = filter is_call (trace s)"
  unfolding Flush_result [OF assms]
  by (cases "cleanupTimer s") (simp_all add: Stop_def)

theorem Flush_resets_witness:
  "mu example_table = RWMutex False 0 \<and>
   (\<exists>s'. Flush example_table = Inr s' \<and> items s' = [] \<and> cleanupInterval s' = 0 \<and>
         cleanupTimer s' = Some (Timer False 10) \<and> trace s' = [])"
  using Flush_resets [of example_table]
  by (auto simp add: example_table_def Flush_def Lock_def Unlock_def log_def Stop_def)

text \<open>
  Claim C10. \<^verbatim>\<open>Flush\<close> leaves the loader, the two callback lists of the table, the logger
  and the name as they were (and the mutex free again, the item objects untouched).
\<close>

theorem Flush_frame:
  assumes "mu s = RWMutex False 0"
  shows "\<exists>s'. Flush s = Inr s' \<and> loadData s' = loadData s \<and> addedItem s' = addedItem s \<and>
           aboutToDeleteItem s' = aboutToDeleteItem s \<and> logger s' = logger s \<and>
           name s' = name s \<and> mu s' = mu s \<and> heap s' = heap s"
  unfolding Flush_result [OF assms] by simp

theorem Flush_frame_witness:
  "mu example_table = RWMutex False 0 \<and>
   (\<exists>s'. Flush example_table = Inr s' \<and> loadData s' = None \<and> addedItem s' = [5] \<and>
         aboutToDeleteItem s' = [7] \<and> logger s' = None \<and> name s' = ''t'')"
  using Flush_frame [of example_table]
  by (auto simp add: example_table_def)

section \<open>Delete\<close>

text \<open>An explicit delete of a key that is there puts on the trace the events of
  \<^verbatim>\<open>deleteInternal\<close>, the same that a sweep puts there for an item it expires.\<close>

lemma Delete_events:
  assumes "mu s = RWMutex False 0" and "map_of (items s) k = Some r"
  shows "\<exists>s'. Delete k s = Inr ((Some r, None), s') \<and> trace s' = trace s @ delete_events s k r"
proof -
  have "deleteInternal k (s\<lparr>mu := RWMutex True 0\<rparr>) =
          Inr ((Some r, None),
               s\<lparr>mu := RWMutex True 0, items := AList.delete k (items s),
                 trace := trace s @ delete_events s k r\<rparr>)"
    using deleteInternal_held [of "s\<lparr>mu := RWMutex True 0\<rparr>" k r] assms(2) by simp
  then show ?thesis
    by (simp add: Delete_def Lock_free [OF assms(1)] Unlock_def)
qed

text \<open>
  Claim C4. \<^verbatim>\<open>Delete\<close> on a table nobody holds locked. For a key that is absent it returns
  \<^verbatim>\<open>(nil, ErrKeyNotFound)\<close> and the state is the one before. For a key held with item \<open>r\<close>
  it returns \<open>r\<close>; the trace grows by the calls of the table's \<^verbatim>\<open>aboutToDeleteItem\<close>
  callbacks on \<open>r\<close>, in their order, then the calls of the item's \<^verbatim>\<open>aboutToExpire\<close>
  callbacks on the key, then the logger's line; the entry of the key is gone from the map;
  and nothing but the map and the trace has changed.
\<close>

theorem Delete_present_absent:
  assumes "mu s = RWMutex False 0"
  shows "case map_of (items s) k of
           None \<Rightarrow> Delete k s = Inr ((None, Some ErrKeyNotFound), s)
         | Some r \<Rightarrow>
             (\<exists>s'. Delete k s = Inr ((Some r, None), s') \<and>
                trace s' = trace s @
                  map (\<lambda>c. Call_aboutToDeleteItem c r) (aboutToDeleteItem s) @
                  map (\<lambda>c. Call_aboutToExpire c k) (aboutToExpire (heap s ! r)) @
                  (if logger s = None then []
                   else [Println (Log_delete k (createdOn (heap s ! r))
                                    (accessCount (heap s ! r)) (name s))]) \<and>
                items s' = AList.delete k (items s) \<and>
                map_of (items s') k = None \<and>
                s'\<lparr>items := items s, trace := trace s\<rparr> = s)"
proof (cases "map_of (items s) k")
  case None
  have "deleteInternal k (s\<lparr>mu := RWMutex True 0\<rparr>) =
          Inr ((None, Some ErrKeyNotFound), s\<lparr>mu := RWMutex True 0\<rparr>)"
    by (rule deleteInternal_absent) (simp add: None)
  then show ?thesis
    using None by (simp add: Delete_def Lock_free [OF assms] Unlock_def assms [symmetric])
next
  case (Some r)
  have "deleteInternal k (s\<lparr>mu := RWMutex True 0\<rparr>) =
          Inr ((Some r, None),
               s\<lparr>mu := RWMutex True 0, items := AList.delete k (items s),
                 trace := trace s @ delete_events s k r\<rparr>)"
    using deleteInternal_held [of "s\<lparr>mu := RWMutex True 0\<rparr>" k r] Some by simp
  then show ?thesis
    using Some
    by (simp add: Delete_def Lock_free [OF assms] Unlock_def assms [symmetric]
                  delete_events_def AList.delete_conv')
qed

theorem Delete_present_absent_witness:
  "mu example_table = RWMutex False 0 \<and>
   Delete ''z'' example_table = Inr ((None, Some ErrKeyNotFound), example_table) \<and>
   (\<exists>s'. Delete ''b'' example_table = Inr ((Some 1, None), s') \<and>
         trace s' = [Call_aboutToDeleteItem 7 1, Call_aboutToExpire 8 ''b'',
                     Call_aboutToExpire 9 ''b''] \<and>
         items s' = [(''a'', 0), (''c'', 2)])"
  using Delete_present_absent [of example_table "''z''"]
    Delete_present_absent [of example_table "''b''"]
  by (auto simp add: example_table_def AList.delete_eq)

section \<open>Add and NotFoundAdd\<close>

lemma time_Now_eq:
  "time_Now s = (fst (time_Now s), s\<lparr>clock := fst (time_Now s), ticks := tl (ticks s)\<rparr>)"
  by (cases "ticks s") (simp_all add: time_Now_def)


lemma NewCacheItem_eq:
  "NewCacheItem k l d s =
     (length (heap s),
      s\<lparr>clock := fst (time_Now s), ticks := tl (ticks s),
        heap := heap s @
          [\<lparr>key = k, data = d, lifeSpan = l, createdOn = fst (time_Now s),
            accessedOn = fst (time_Now s), accessCount = 0, aboutToExpire = []\<rparr>]\<rparr>)"
  unfolding NewCacheItem_def by (subst time_Now_eq) simp








section \<open>Add followed by Value\<close>


lemma KeepAlive_heap:
  assumes "item < length (heap s)"
  shows "heap (KeepAlive item s) ! item =
           (heap s ! item)\<lparr>accessedOn := fst (time_Now s),
                            accessCount := accessCount (heap s ! item) + 1\<rparr>"
  unfolding KeepAlive_def using assms by (subst time_Now_eq) (simp add: Let_def)




section \<open>Value with a loader\<close>



section \<open>The times and the hit count of an item\<close>

lemma sint_succ:
  fixes x :: "64 word"
  assumes "sint x < 2 ^ 63 - 1"
  shows "sint (x + 1) = sint x + 1"
proof -
  have lo: "- (2 ^ 63) \<le> sint x" using sint_ge [of x] by simp
  have "sint (x + 1) = signed_take_bit 63 (sint x + 1)"
    by (simp add: sint_word_ariths)
  also have "\<dots> = sint x + 1"
    by (rule signed_take_bit_int_eq_self) (use lo assms in simp_all)
  finally show ?thesis .
qed

lemma clock_le_Now: "clock s \<le> fst (time_Now s)"
  by (simp add: time_Now_def split: list.splits)

lemma clock_KeepAlive: "clock (KeepAlive item s) = fst (time_Now s)"
  unfolding KeepAlive_def by (subst time_Now_eq) (simp add: Let_def)

lemma length_heap_KeepAlive: "length (heap (KeepAlive item s)) = length (heap s)"
  unfolding KeepAlive_def by (subst time_Now_eq) (simp add: Let_def)

text \<open>
  Claim C8, as the code has it. \<^verbatim>\<open>NewCacheItem\<close> makes an item that is in order, with a hit
  count of 0. \<^verbatim>\<open>KeepAlive\<close> on an item that is in order leaves it in order, so that
  \<open>accessedOn \<ge> createdOn\<close> goes on holding, as does a reading of the clock by anybody else;
  it leaves \<open>createdOn\<close> alone and adds one to the count in \<^verbatim>\<open>int64\<close> arithmetic, which is
  an increase whenever the count is below \<open>2\<^sup>6\<^sup>3 - 1\<close>.
\<close>

theorem item_times_and_hits:
  assumes "item_ok s' item"
  shows "item_ok (snd (NewCacheItem k l d s)) (fst (NewCacheItem k l d s)) \<and>
         accessCount (heap (snd (NewCacheItem k l d s)) ! fst (NewCacheItem k l d s)) = 0 \<and>
         item_ok (snd (time_Now s')) item \<and>
         item_ok (KeepAlive item s') item \<and>
         createdOn (heap (KeepAlive item s') ! item) = createdOn (heap s' ! item) \<and>
         accessCount (heap (KeepAlive item s') ! item) = accessCount (heap s' ! item) + 1 \<and>
         (sint (accessCount (heap s' ! item)) < 2 ^ 63 - 1 \<longrightarrow>
          sint (accessCount (heap (KeepAlive item s') ! item)) =
            sint (accessCount (heap s' ! item)) + 1)"
proof -
  have new: "item_ok (snd (NewCacheItem k l d s)) (fst (NewCacheItem k l d s)) \<and>
         accessCount (heap (snd (NewCacheItem k l d s)) ! fst (NewCacheItem k l d s)) = 0"
    by (simp add: NewCacheItem_eq item_ok_def)
  have lt: "item < length (heap s')" using assms by (simp add: item_ok_def)
  have le: "accessedOn (heap s' ! item) \<le> fst (time_Now s')"
    "createdOn (heap s' ! item) \<le> fst (time_Now s')"
    using assms clock_le_Now [of s'] by (simp_all add: item_ok_def)
  have tick: "item_ok (snd (time_Now s')) item"
    using assms le(1) by (subst time_Now_eq) (simp add: item_ok_def)
  have keep: "item_ok (KeepAlive item s') item"
    using lt le(2)
    by (simp add: item_ok_def KeepAlive_heap [OF lt] clock_KeepAlive length_heap_KeepAlive)
  have cr: "createdOn (heap (KeepAlive item s') ! item) = createdOn (heap s' ! item)"
    by (simp add: KeepAlive_heap [OF lt])
  have ac: "accessCount (heap (KeepAlive item s') ! item) = accessCount (heap s' ! item) + 1"
    by (simp add: KeepAlive_heap [OF lt])
  have up: "sint (accessCount (heap s' ! item)) < 2 ^ 63 - 1 \<longrightarrow>
          sint (accessCount (heap (KeepAlive item s') ! item)) =
            sint (accessCount (heap s' ! item)) + 1"
    unfolding ac using sint_succ by blast
  show ?thesis using new tick keep cr ac up by blast
qed

theorem item_times_and_hits_witness:
  "item_ok example_table 2 \<and> sint (accessCount (heap example_table ! 2)) < 2 ^ 63 - 1 \<and>
   createdOn (heap (KeepAlive 2 example_table) ! 2) = 0 \<and>
   accessedOn (heap (KeepAlive 2 example_table) ! 2) = 12 \<and>
   sint (accessCount (heap (KeepAlive 2 example_table) ! 2)) = 2"
  using item_times_and_hits [of example_table 2 "''z''" 0 7 example_empty]
  by (simp add: item_ok_def example_table_def KeepAlive_def time_Now_def)
lemma KeepAlive_funpow:
  assumes "item < length (heap s)"
  shows "item < length (heap ((KeepAlive item ^^ n) s)) \<and>
         accessCount (heap ((KeepAlive item ^^ n) s) ! item) =
           accessCount (heap s ! item) + of_nat n"
proof (induction n)
  case 0
  then show ?case using assms by simp
next
  case (Suc n)
  then show ?case
    by (simp add: KeepAlive_heap length_heap_KeepAlive)
qed

text \<open>
  The claim as it was stated, that the count never decreases, fails at the end of the
  \<^verbatim>\<open>int64\<close> range: after \<open>2\<^sup>6\<^sup>3 - 1\<close> calls of \<^verbatim>\<open>KeepAlive\<close> on a new item, one more call
  takes the count from the largest value to the smallest.
\<close>

theorem accessCount_wraps_counterexample:
  "sint (accessCount (heap (KeepAlive 0 ((KeepAlive 0 ^^ (2 ^ 63 - 1))
            (snd (NewCacheItem ''a'' 0 7 example_empty)))) ! 0))
   < sint (accessCount (heap ((KeepAlive 0 ^^ (2 ^ 63 - 1))
            (snd (NewCacheItem ''a'' 0 7 example_empty))) ! 0))"
proof -
  let ?s1 = "snd (NewCacheItem ''a'' 0 7 example_empty)"
  define sn where "sn = (KeepAlive 0 ^^ (2 ^ 63 - 1)) ?s1"
  have l1: "0 < length (heap ?s1)" and a1: "accessCount (heap ?s1 ! 0) = 0"
    by (simp_all add: NewCacheItem_eq example_empty_def)
  have n: "0 < length (heap sn)"
    and an: "accessCount (heap sn ! 0) = accessCount (heap ?s1 ! 0) + of_nat (2 ^ 63 - 1)"
    unfolding sn_def using KeepAlive_funpow [OF l1, of "2 ^ 63 - 1"] by blast+
  have w: "(of_nat (2 ^ 63 - 1) :: 64 word) = 0x7FFFFFFFFFFFFFFF" by simp
  have cnt: "accessCount (heap sn ! 0) = 0x7FFFFFFFFFFFFFFF"
    unfolding an a1 w by simp
  have before: "sint (accessCount (heap sn ! 0)) = 9223372036854775807"
    unfolding cnt by simp
  have after: "sint (accessCount (heap (KeepAlive 0 sn) ! 0)) = - 9223372036854775808"
    unfolding KeepAlive_heap [OF n] by (simp add: cnt)
  have "sint (accessCount (heap (KeepAlive 0 sn) ! 0)) < sint (accessCount (heap sn ! 0))"
    unfolding before after by simp
  then show ?thesis unfolding sn_def .
qed

end
